theory Spec2Isabelle
  imports Main "HOL-Library.Sublist"
begin

section \<open>Connect4 rules engine (src/games/connect4.py)\<close>

subsection \<open>Python and numpy primitives used by the engine\<close>

text \<open>
  A two-dimensional numpy array of Python ints is a list of rows. numpy arrays are
  rectangular; the predicate \<open>rect\<close> below states that shape. An array with no row has no
  cell in any column, so every column-wise result on it is empty whatever its column count.
\<close>

type_synonym grid = "int list list"

definition np_zeros :: "nat \<times> nat \<Rightarrow> grid" where
  "np_zeros shape = replicate (fst shape) (replicate (snd shape) 0)"

definition ncols :: "grid \<Rightarrow> nat" where
  "ncols x = (case x of [] \<Rightarrow> 0 | r # _ \<Rightarrow> length r)"

definition rect :: "nat \<times> nat \<Rightarrow> grid \<Rightarrow> bool" where
  "rect shape x \<longleftrightarrow> length x = fst shape \<and> (\<forall>r \<in> set x. length r = snd shape)"

text \<open>\<open>x[:, c]\<close>: the column \<open>c\<close>, top row first.\<close>

definition column :: "grid \<Rightarrow> nat \<Rightarrow> int list" where
  "column x c = map (\<lambda>r. r ! c) x"

text \<open>
  An integer index \<open>i\<close> on an axis of length \<open>n\<close> is in bounds when \<open>-n \<le> i < n\<close>; a negative
  one counts from the end. Out of bounds, numpy raises IndexError.
\<close>

definition np_in_bounds :: "nat \<Rightarrow> int \<Rightarrow> bool" where
  "np_in_bounds n i \<longleftrightarrow> - int n \<le> i \<and> i < int n"

definition np_wrap :: "nat \<Rightarrow> int \<Rightarrow> nat" where
  "np_wrap n i = nat (if i < 0 then i + int n else i)"

text \<open>\<open>x[i, j] = v\<close> on in-bounds, already wrapped indices.\<close>

definition np_set :: "grid \<Rightarrow> nat \<Rightarrow> nat \<Rightarrow> int \<Rightarrow> grid" where
  "np_set x i j v = x[i := (x ! i)[j := v]]"

text \<open>
  \<open>xs[lo:hi]\<close> with step 1: a negative bound counts from the end, and both bounds are
  clipped to the length.
\<close>

definition slice_bound :: "nat \<Rightarrow> int \<Rightarrow> nat" where
  "slice_bound n b = (if b < 0 then nat (max (b + int n) 0) else min (nat b) n)"

definition py_slice :: "int \<Rightarrow> int \<Rightarrow> 'a list \<Rightarrow> 'a list" where
  "py_slice lo hi xs =
     take (slice_bound (length xs) hi - slice_bound (length xs) lo)
          (drop (slice_bound (length xs) lo) xs)"

text \<open>
  \<open>np.diagonal(x, offset=k)\<close>: the cells \<open>x[t, t + k]\<close> that exist, by increasing \<open>t\<close>;
  empty when the offset leaves the array.
\<close>

definition np_diagonal :: "grid \<Rightarrow> int \<Rightarrow> int list" where
  "np_diagonal x k =
     map (\<lambda>t. x ! t ! nat (int t + k))
         (filter (\<lambda>t. 0 \<le> int t + k \<and> int t + k < int (length (x ! t))) [0..<length x])"

text \<open>\<open>str\<close> of an integer: its decimal digits, with a minus sign when negative.\<close>

fun str_nat :: "nat \<Rightarrow> string" where
  "str_nat n =
     (if n < 10 then [''0123456789'' ! n]
      else str_nat (n div 10) @ [''0123456789'' ! (n mod 10)])"

declare str_nat.simps [simp del]

definition str_int :: "int \<Rightarrow> string" where
  "str_int i = (if i < 0 then CHR ''-'' # str_nat (nat (- i)) else str_nat (nat i))"

subsection \<open>Players and the game object\<close>

record player =
  p_name :: string
  p_value :: int
  p_display :: string

text \<open>
  The game object. The arrays it owns live in a store (\<open>heap\<close>, an address is an index):
  \<open>state\<close> is the address of the grid that \<open>play\<close> mutates in place, and \<open>history\<close> is the
  list of addresses of the snapshots made with \<open>copy()\<close>. \<open>players_gen\<close> is the position
  in \<open>players\<close> of the element that the \<open>cycle\<close> iterator yields next.
\<close>

record game =
  board_size :: "nat \<times> nat"
  heap :: "grid list"
  state :: nat
  save_history :: bool
  history :: "nat list"
  last_play :: "nat option"
  players :: "player list"
  players_values :: "int list"
  players_gen :: nat
  current_player :: player
  winner' :: "player option"

datatype error =
    IllegalMove     \<comment> \<open>\<open>ValueError('Selected move is illegal')\<close>\<close>
  | NoLegalMoves    \<comment> \<open>the ValueError of \<open>np.random.choice(0, 1)\<close>\<close>
  | IndexError

definition playerA :: player where
  "playerA = \<lparr>p_name = ''A'', p_value = 1, p_display = ''O''\<rparr>"

definition playerB :: player where
  "playerB = \<lparr>p_name = ''B'', p_value = 2, p_display = ''X''\<rparr>"

text \<open>\<open>next(self.players_gen)\<close> followed by the assignment to \<open>current_player\<close>.\<close>

definition next_player :: "game \<Rightarrow> game" where
  "next_player g =
     g\<lparr>current_player := players g ! players_gen g,
       players_gen := (players_gen g + 1) mod length (players g)\<rparr>"

text \<open>\<open>Game.__init__\<close>: the grid is allocated at address 0 and its copy at address 1.\<close>

definition init_game :: "nat \<times> nat \<Rightarrow> bool \<Rightarrow> game" where
  "init_game bs sh =
     next_player
       \<lparr>board_size = bs,
        heap = [np_zeros bs, np_zeros bs],
        state = 0,
        save_history = sh,
        history = [1],
        last_play = None,
        players = [playerA, playerB],
        players_values = map p_value [playerA, playerB],
        players_gen = 0,
        current_player = playerA,
        winner' = None\<rparr>"

text \<open>The grid that \<open>self.state\<close> refers to, and the grids that \<open>self.history\<close> refers to.\<close>

definition board :: "game \<Rightarrow> grid" where
  "board g = heap g ! state g"

definition snapshots :: "game \<Rightarrow> grid list" where
  "snapshots g = map (\<lambda>a. heap g ! a) (history g)"

definition winner :: "game \<Rightarrow> player option" where
  "winner g = winner' g"

text \<open>
  \<open>legal_plays\<close>: the columns whose count of cells outside \<open>players_values\<close> is not zero,
  by increasing index. It assigns no attribute, hence a function of the game alone.
\<close>

definition legal_plays :: "game \<Rightarrow> nat list" where
  "legal_plays g =
     (if winner g = None
      then filter (\<lambda>c. length (filter (\<lambda>v. v \<notin> set (players_values g)) (column (board g) c)) \<noteq> 0)
                  [0..<ncols (board g)]
      else [])"

subsection \<open>Playing a move\<close>

text \<open>
  The move to play. \<open>rnd\<close> stands for the random draw: \<open>np.random.choice(n, 1)[0]\<close> is any
  index below \<open>n\<close>, here \<open>rnd mod n\<close>.
\<close>

definition select_move :: "nat \<Rightarrow> nat list \<Rightarrow> int option \<Rightarrow> error + nat" where
  "select_move rnd legal move =
     (case move of
        Some m \<Rightarrow> if m \<in> set (map int legal) then Inr (nat m) else Inl IllegalMove
      | None \<Rightarrow> if legal = [] then Inl NoLegalMoves
                else Inr (legal ! (rnd mod length legal)))"

definition row_number :: "game \<Rightarrow> nat \<Rightarrow> int" where
  "row_number g c =
     int (fst (board_size g)) - int (length (filter (\<lambda>v. v \<noteq> 0) (column (board g) c))) - 1"

definition spaces_to_check :: "grid \<Rightarrow> int \<Rightarrow> nat \<Rightarrow> int list list" where
  "spaces_to_check x i j =
     [py_slice (max (i - 3) 0) (i + 4) (column x j),
      py_slice (max (int j - 3) 0) (int j + 4) (x ! np_wrap (length x) i),
      np_diagonal x (int j - i),
      np_diagonal (map rev x) (int (length x) - (i + int j))]"

text \<open>The loop over the four spaces: true when some space, as text, contains the pattern.\<close>

definition pattern_found :: "grid \<Rightarrow> int \<Rightarrow> nat \<Rightarrow> int \<Rightarrow> bool" where
  "pattern_found x i j v =
     list_ex (\<lambda>space. sublist (concat (replicate 4 (str_int v))) (concat (map str_int space)))
             (spaces_to_check x i j)"

text \<open>
  \<open>play\<close> returns the exception raised, if any, and the game object after the call.
  Both \<open>ValueError\<close>s are raised before anything is assigned. The assignment
  \<open>self.state[row_number, selected_move] = ...\<close> raises \<open>IndexError\<close> when an index is out
  of bounds, again before anything is assigned; a row number of \<open>-1\<close> would address the
  last row, as in numpy. The assignment updates the array at the address \<open>state\<close> in place;
  \<open>self.state.copy()\<close> allocates a new array at the end of the store. A match of the
  pattern sets the winner and returns, so that the turn passes only without a match.
\<close>

definition play :: "nat \<Rightarrow> game \<Rightarrow> int option \<Rightarrow> error option \<times> game" where
  "play rnd g move =
     (case select_move rnd (legal_plays g) move of
        Inl e \<Rightarrow> (Some e, g)
      | Inr selected_move \<Rightarrow>
          let x = board g;
              i = row_number g selected_move
          in if \<not> (np_in_bounds (length x) i \<and> selected_move < ncols x)
             then (Some IndexError, g)
             else
               let x' = np_set x (np_wrap (length x) i) selected_move (p_value (current_player g));
                   h = (heap g)[state g := x'];
                   g1 = g\<lparr>heap := h @ [x'],
                          last_play := Some selected_move,
                          history := (if save_history g then history g @ [length h]
                                      else [length h])\<rparr>
               in if pattern_found x' i selected_move (p_value (current_player g))
                  then (None, g1\<lparr>winner' := Some (current_player g)\<rparr>)
                  else (None, next_player g1))"

subsection \<open>Reachable game objects\<close>

text \<open>
  \<open>reached bs sh n g\<close>: \<open>g\<close> is what a game constructed with \<open>Game(bs, sh)\<close> has become
  after some calls of \<open>play\<close>, \<open>n\<close> of which returned normally.
\<close>

inductive reached :: "nat \<times> nat \<Rightarrow> bool \<Rightarrow> nat \<Rightarrow> game \<Rightarrow> bool" where
  start: "reached bs sh 0 (init_game bs sh)"
| accepted: "reached bs sh n g \<Longrightarrow> play rnd g move = (None, g') \<Longrightarrow> reached bs sh (Suc n) g'"
| rejected: "reached bs sh n g \<Longrightarrow> play rnd g move = (Some e, g') \<Longrightarrow> reached bs sh n g'"

text \<open>Playing a list of columns in turn (the driver loop of \<open>main\<close> with given moves).\<close>

definition play_seq :: "game \<Rightarrow> int list \<Rightarrow> game" where
  "play_seq g ms = foldl (\<lambda>g m. snd (play 0 g (Some m))) g ms"

subsection \<open>Notions used to state the properties\<close>

text \<open>The number of occupied (non-zero) cells of a grid.\<close>

definition occupied :: "grid \<Rightarrow> nat" where
  "occupied x = length (filter (\<lambda>v. v \<noteq> 0) (concat x))"

text \<open>The player who is not \<open>p\<close>, among the two registered ones.\<close>

definition other_player :: "player \<Rightarrow> player" where
  "other_player p = (if p = playerA then playerB else playerA)"

text \<open>
  The four lines through the cell \<open>(i, j)\<close>, as the specification describes them: the
  cells of column \<open>j\<close> at most three rows away from row \<open>i\<close>, the cells of row \<open>i\<close> at
  most three columns away from column \<open>j\<close>, the whole diagonal \<open>(r, c)\<close> with
  \<open>c - r = j - i\<close>, and the whole diagonal with \<open>r + c = i + j\<close>; each by increasing row
  (the row segment by increasing column).
\<close>

definition vertical_segment :: "grid \<Rightarrow> nat \<Rightarrow> nat \<Rightarrow> int list" where
  "vertical_segment x i j = map (\<lambda>r. x ! r ! j) [i - 3..<min (i + 4) (length x)]"

definition horizontal_segment :: "grid \<Rightarrow> nat \<Rightarrow> nat \<Rightarrow> int list" where
  "horizontal_segment x i j = map (\<lambda>c. x ! i ! c) [j - 3..<min (j + 4) (length (x ! i))]"

definition diagonal_through :: "grid \<Rightarrow> nat \<Rightarrow> nat \<Rightarrow> int list" where
  "diagonal_through x i j =
     map (\<lambda>r. x ! r ! (r + j - i))
         (filter (\<lambda>r. i \<le> r + j \<and> r + j - i < length (x ! r)) [0..<length x])"

definition antidiagonal_through :: "grid \<Rightarrow> nat \<Rightarrow> nat \<Rightarrow> int list" where
  "antidiagonal_through x i j =
     map (\<lambda>r. x ! r ! (i + j - r))
         (filter (\<lambda>r. r \<le> i + j \<and> i + j - r < length (x ! r)) [0..<length x])"

text \<open>The character that \<open>str\<close> gives for the cell values 0, 1 and 2.\<close>

definition digit :: "int \<Rightarrow> char" where
  "digit v = (if v = 0 then CHR ''0'' else if v = 1 then CHR ''1'' else CHR ''2'')"

text \<open>
  \<open>has_four v xs\<close>: the line \<open>xs\<close> holds four consecutive cells with value \<open>v\<close>.
  \<open>four_in_line x i j v\<close>: one of the four lines through \<open>(i, j)\<close> does.
\<close>

definition has_four :: "int \<Rightarrow> int list \<Rightarrow> bool" where
  "has_four v xs \<longleftrightarrow> sublist (replicate 4 v) xs"

definition four_in_line :: "grid \<Rightarrow> nat \<Rightarrow> nat \<Rightarrow> int \<Rightarrow> bool" where
  "four_in_line x i j v \<longleftrightarrow>
     has_four v (vertical_segment x i j) \<or> has_four v (horizontal_segment x i j) \<or>
     has_four v (diagonal_through x i j) \<or> has_four v (antidiagonal_through x i j)"

text \<open>
  A column obeys gravity: empty cells on top, pieces of the two players below them.
\<close>

definition col_ok :: "int list \<Rightarrow> bool" where
  "col_ok col \<longleftrightarrow> (\<exists>a ys. col = replicate a 0 @ ys \<and> set ys \<subseteq> {1, 2})"

text \<open>The invariant of the game objects that the constructor and \<open>play\<close> produce.\<close>

definition game_inv :: "nat \<times> nat \<Rightarrow> game \<Rightarrow> bool" where
  "game_inv bs g \<longleftrightarrow>
     board_size g = bs \<and> state g < length (heap g) \<and> rect bs (board g) \<and>
     (\<forall>c < snd bs. col_ok (column (board g) c)) \<and>
     players g = [playerA, playerB] \<and> players_values g = [1, 2] \<and>
     players_gen g < 2 \<and> current_player g = [playerA, playerB] ! (1 - players_gen g) \<and>
     (\<forall>a \<in> set (history g). a < length (heap g) \<and> a \<noteq> state g)"

text \<open>The grid after the current player's piece has been dropped in column \<open>c\<close>.\<close>

definition placed :: "game \<Rightarrow> nat \<Rightarrow> grid" where
  "placed g c = np_set (board g) (np_wrap (length (board g)) (row_number g c)) c (p_value (current_player g))"

text \<open>All the moves of a list are accepted when played in turn.\<close>

fun accepted_seq :: "game \<Rightarrow> int list \<Rightarrow> bool" where
  "accepted_seq g [] = True"
| "accepted_seq g (m # ms) =
     (fst (play 0 g (Some m)) = None \<and> accepted_seq (snd (play 0 g (Some m))) ms)"

section \<open>Basic facts about \<open>play\<close>\<close>

lemma select_move_Inr: "select_move rnd legal move = Inr c \<Longrightarrow> c \<in> set legal"
  by (auto simp: select_move_def split: option.splits if_splits)

lemma play_rejected: "play rnd g move = (Some e, g') \<Longrightarrow> g' = g"
  by (auto simp: play_def Let_def split: sum.splits if_splits)

lemma play_accepted:
  assumes "play rnd g move = (None, g')"
  obtains c where "select_move rnd (legal_plays g) move = Inr c"
    and "c \<in> set (legal_plays g)"
    and "np_in_bounds (length (board g)) (row_number g c)" and "c < ncols (board g)"
    and "g' = (let x' = placed g c;
                   h = (heap g)[state g := x'];
                   g1 = g\<lparr>heap := h @ [x'], last_play := Some c,
                          history := (if save_history g then history g @ [length h] else [length h])\<rparr>
               in if pattern_found x' (row_number g c) c (p_value (current_player g))
                  then g1\<lparr>winner' := Some (current_player g)\<rparr>
                  else next_player g1)"
proof -
  from assms obtain c where c: "select_move rnd (legal_plays g) move = Inr c"
    by (auto simp: play_def split: sum.splits)
  show ?thesis
    using assms c select_move_Inr[OF c]
    by (intro that[of c]) (auto simp: play_def Let_def placed_def split: if_splits)
qed

lemma legal_playsD:
  assumes "c \<in> set (legal_plays g)"
  shows "winner' g = None" and "c < ncols (board g)"
    and "\<exists>v \<in> set (column (board g) c). v \<notin> set (players_values g)"
  using assms
  by (auto simp: legal_plays_def winner_def filter_empty_conv split: if_splits)

section \<open>Grids and columns\<close>

lemma rect_column_length: "rect bs x \<Longrightarrow> length (column x c) = fst bs"
  by (simp add: rect_def column_def)

lemma rect_row_length: "rect bs x \<Longrightarrow> r < fst bs \<Longrightarrow> length (x ! r) = snd bs"
  by (simp add: rect_def)

lemma column_nth: "r < length x \<Longrightarrow> column x c ! r = x ! r ! c"
  by (simp add: column_def)

lemma rect_ncols: "rect bs x \<Longrightarrow> c < ncols x \<Longrightarrow> c < snd bs \<and> 0 < fst bs"
  by (cases x) (auto simp: rect_def ncols_def)

lemma rect_ncols_eq: "rect bs x \<Longrightarrow> 0 < fst bs \<Longrightarrow> ncols x = snd bs"
  by (cases x) (auto simp: rect_def ncols_def)

lemma rect_np_set: "rect bs x \<Longrightarrow> rect bs (np_set x i c v)"
  by (cases "i < length x") (auto simp: rect_def np_set_def all_set_conv_all_nth nth_list_update)

lemma column_np_set_same:
  "i < length x \<Longrightarrow> column (np_set x i c v) c = (column x c)[i := (x ! i)[c := v] ! c]"
  by (auto simp: column_def np_set_def list_eq_iff_nth_eq nth_list_update)

lemma column_np_set_other:
  "c' \<noteq> c \<Longrightarrow> column (np_set x i c v) c' = column x c'"
  by (cases "i < length x") (auto simp: column_def np_set_def list_eq_iff_nth_eq nth_list_update)

lemma col_decomp_count:
  "set ys \<subseteq> {1, 2} \<Longrightarrow> filter (\<lambda>v. v \<noteq> (0::int)) (replicate a 0 @ ys) = ys"
  by (auto simp: filter_id_conv)

lemma col_decomp_free:
  assumes "set ys \<subseteq> {1, 2::int}" and "\<exists>v \<in> set (replicate a 0 @ ys). v \<notin> set [1, 2]"
  shows "0 < a"
  using assms by (cases a) auto

lemma game_invD:
  assumes "game_inv bs g"
  shows "board_size g = bs" and "state g < length (heap g)" and "rect bs (board g)"
    and "\<And>c. c < snd bs \<Longrightarrow> col_ok (column (board g) c)"
    and "players g = [playerA, playerB]" and "players_values g = [1, 2]"
    and "players_gen g < 2" and "current_player g = [playerA, playerB] ! (1 - players_gen g)"
    and "\<And>a. a \<in> set (history g) \<Longrightarrow> a < length (heap g) \<and> a \<noteq> state g"
  using assms unfolding game_inv_def by blast+

lemma legal_row:
  assumes inv: "game_inv bs g" and c: "c \<in> set (legal_plays g)"
  obtains a ys where "column (board g) c = replicate (Suc a) 0 @ ys" and "set ys \<subseteq> {1, 2}"
    and "row_number g c = int a" and "a < fst bs" and "c < snd bs" and "fst bs = Suc a + length ys"
proof -
  note r = game_invD(3)[OF inv] and bs = game_invD(1)[OF inv] and pv = game_invD(6)[OF inv]
  from legal_playsD(2)[OF c] r have cC: "c < snd bs"
    using rect_ncols by blast
  from legal_playsD(3)[OF c] pv
  have free: "\<exists>v \<in> set (column (board g) c). v \<notin> set [1, 2]" by simp
  from game_invD(4)[OF inv cC] obtain a ys
    where d: "column (board g) c = replicate a 0 @ ys" and ys: "set ys \<subseteq> {1, 2}"
    unfolding col_ok_def by blast
  from free have "0 < a" unfolding d by (rule col_decomp_free[OF ys])
  then obtain a' where a': "a = Suc a'" by (cases a) auto
  have len: "fst bs = a + length ys"
    using rect_column_length[OF r, of c] unfolding d by simp
  have cnt: "length (filter (\<lambda>v. v \<noteq> 0) (column (board g) c)) = length ys"
    unfolding d using col_decomp_count[OF ys, of a] by simp
  have "row_number g c = int a'"
    unfolding row_number_def cnt bs len a' by simp
  moreover have "column (board g) c = replicate (Suc a') 0 @ ys" using d a' by simp
  moreover have "a' < fst bs" "fst bs = Suc a' + length ys" using len a' by simp_all
  ultimately show ?thesis
    using that[of a' ys] ys cC by blast
qed

section \<open>The effect of an accepted play\<close>

lemma other_player_nth:
  "k < 2 \<Longrightarrow> [playerA, playerB] ! k = other_player ([playerA, playerB] ! (1 - k))"
  by (cases k) (auto simp: other_player_def playerA_def playerB_def)

lemma play_accepted_inv:
  assumes inv: "game_inv bs g" and pl: "play rnd g move = (None, g')"
  obtains c a ys where
    "select_move rnd (legal_plays g) move = Inr c" and "c \<in> set (legal_plays g)"
    and "c < snd bs" and "a < fst bs"
    and "column (board g) c = replicate (Suc a) 0 @ ys" and "set ys \<subseteq> {1, 2}"
    and "fst bs = Suc a + length ys"
    and "row_number g c = int a"
    and "board g' = np_set (board g) a c (p_value (current_player g))"
    and "last_play g' = Some c"
    and "heap g' = (heap g)[state g := board g'] @ [board g']"
    and "state g' = state g"
    and "history g' = (if save_history g then history g @ [length (heap g)] else [length (heap g)])"
    and "save_history g' = save_history g" and "board_size g' = board_size g"
    and "players g' = players g" and "players_values g' = players_values g"
    and "winner' g' = (if pattern_found (board g') (int a) c (p_value (current_player g))
                       then Some (current_player g) else None)"
    and "current_player g' = (if pattern_found (board g') (int a) c (p_value (current_player g))
                       then current_player g else other_player (current_player g))"
    and "players_gen g' = (if pattern_found (board g') (int a) c (p_value (current_player g))
                       then players_gen g else 1 - players_gen g)"
proof -
  from pl obtain c where sel: "select_move rnd (legal_plays g) move = Inr c"
    and c: "c \<in> set (legal_plays g)"
    and g': "g' = (let x' = placed g c;
                   h = (heap g)[state g := x'];
                   g1 = g\<lparr>heap := h @ [x'], last_play := Some c,
                          history := (if save_history g then history g @ [length h] else [length h])\<rparr>
               in if pattern_found x' (row_number g c) c (p_value (current_player g))
                  then g1\<lparr>winner' := Some (current_player g)\<rparr>
                  else next_player g1)"
    by (rule play_accepted)
  from inv c obtain a ys where col: "column (board g) c = replicate (Suc a) 0 @ ys"
    and ys: "set ys \<subseteq> {1, 2}" and row: "row_number g c = int a" and a: "a < fst bs"
    and cC: "c < snd bs" and len: "fst bs = Suc a + length ys"
    by (rule legal_row)
  note r = game_invD(3)[OF inv] and st = game_invD(2)[OF inv]
  have lenb: "length (board g) = fst bs" using r by (simp add: rect_def)
  have pl: "placed g c = np_set (board g) a c (p_value (current_player g))"
    by (simp add: placed_def row np_wrap_def)
  have b': "board g' = placed g c"
    using st by (simp add: g' Let_def board_def next_player_def nth_append)
  have wn: "winner' g = None" using legal_playsD(1)[OF c] .
  have gen: "players_gen g < 2" and cur: "current_player g = [playerA, playerB] ! (1 - players_gen g)"
    and ps: "players g = [playerA, playerB]"
    using game_invD[OF inv] by simp_all
  have nxt: "players g ! players_gen g = other_player (current_player g)"
    unfolding ps cur by (rule other_player_nth[OF gen])
  have gen': "Suc (players_gen g) mod length (players g) = Suc 0 - players_gen g"
    using gen unfolding ps by (cases "players_gen g") auto
  show ?thesis
  proof (rule that[of c a ys])
    show "heap g' = (heap g)[state g := board g'] @ [board g']"
      unfolding b' by (simp add: g' Let_def next_player_def)
    show "winner' g' = (if pattern_found (board g') (int a) c (p_value (current_player g))
                       then Some (current_player g) else None)"
      unfolding b' by (simp add: g' Let_def next_player_def row wn)
    show "current_player g' = (if pattern_found (board g') (int a) c (p_value (current_player g))
                       then current_player g else other_player (current_player g))"
      unfolding b' by (simp add: g' Let_def next_player_def row nxt)
    show "players_gen g' = (if pattern_found (board g') (int a) c (p_value (current_player g))
                       then players_gen g else 1 - players_gen g)"
      unfolding b' by (simp add: g' Let_def next_player_def row gen')
    show "board g' = np_set (board g) a c (p_value (current_player g))"
      using b' pl by simp
  qed (use sel c col ys row a cC len in \<open>simp_all add: g' Let_def next_player_def\<close>)
qed

section \<open>The invariant holds in every reachable game\<close>

lemma replicate_Suc_update:
  "(replicate (Suc a) (0::int) @ ys)[a := v] = replicate a 0 @ v # ys"
  by (induction a) auto

lemma current_value:
  assumes "game_inv bs g"
  shows "p_value (current_player g) \<in> {1, 2}"
proof -
  have "players_gen g < 2" and "current_player g = [playerA, playerB] ! (1 - players_gen g)"
    using game_invD[OF assms] by simp_all
  then show ?thesis
    by (cases "players_gen g") (auto simp: playerA_def playerB_def)
qed

lemma placed_column:
  assumes r: "rect bs x" and a: "a < fst bs" and c: "c < snd bs"
    and col: "column x c = replicate (Suc a) 0 @ ys"
  shows "column (np_set x a c v) c = replicate a 0 @ v # ys"
proof -
  have la: "a < length x" using r a by (simp add: rect_def)
  have "length (x ! a) = snd bs" using rect_row_length[OF r a] .
  then have "(x ! a)[c := v] ! c = v" using c by simp
  then show ?thesis
    using column_np_set_same[OF la, of c v] col replicate_Suc_update[of a ys v] by simp
qed

lemma game_inv_init: "game_inv bs (init_game bs sh)"
proof -
  have "col_ok (column (np_zeros bs) c)" if "c < snd bs" for c
  proof -
    have "column (np_zeros bs) c = replicate (fst bs) 0 @ []"
      using that by (simp add: column_def np_zeros_def)
    then show ?thesis unfolding col_ok_def
      by (intro exI[of _ "fst bs"] exI[of _ "[]"]) simp
  qed
  then show ?thesis
    by (simp add: game_inv_def init_game_def next_player_def board_def rect_def np_zeros_def
        playerA_def playerB_def)
qed

lemma game_inv_play:
  assumes inv: "game_inv bs g" and pl: "play rnd g move = (None, g')"
  shows "game_inv bs g'"
proof -
  from inv pl obtain c a ys where
    cC: "c < snd bs" and a: "a < fst bs"
    and col: "column (board g) c = replicate (Suc a) 0 @ ys" and ys: "set ys \<subseteq> {1, 2}"
    and b': "board g' = np_set (board g) a c (p_value (current_player g))"
    and h': "heap g' = (heap g)[state g := board g'] @ [board g']"
    and s': "state g' = state g"
    and hi': "history g' = (if save_history g then history g @ [length (heap g)] else [length (heap g)])"
    and bs': "board_size g' = board_size g"
    and ps': "players g' = players g" and pv': "players_values g' = players_values g"
    and cur': "current_player g' = (if pattern_found (board g') (int a) c (p_value (current_player g))
                       then current_player g else other_player (current_player g))"
    and gen': "players_gen g' = (if pattern_found (board g') (int a) c (p_value (current_player g))
                       then players_gen g else 1 - players_gen g)"
    by (rule play_accepted_inv)
  note d = game_invD[OF inv]
  have v: "p_value (current_player g) \<in> {1, 2}" by (rule current_value[OF inv])
  have r': "rect bs (board g')" unfolding b' by (rule rect_np_set[OF d(3)])
  have cols: "col_ok (column (board g') c')" if "c' < snd bs" for c'
  proof (cases "c' = c")
    case True
    have "column (board g') c = replicate a 0 @ p_value (current_player g) # ys"
      unfolding b' by (rule placed_column[OF d(3) a cC col])
    moreover have "set (p_value (current_player g) # ys) \<subseteq> {1, 2}" using v ys by simp
    ultimately show ?thesis unfolding col_ok_def True by blast
  next
    case False
    then show ?thesis unfolding b' using d(4)[OF that] by (simp add: column_np_set_other)
  qed
  have gen2: "players_gen g' < 2" using d(7) by (auto simp: gen')
  have cur2: "current_player g' = [playerA, playerB] ! (1 - players_gen g')"
  proof (cases "pattern_found (board g') (int a) c (p_value (current_player g))")
    case True
    then show ?thesis using d(8) by (simp add: cur' gen')
  next
    case False
    have "other_player (current_player g) = [playerA, playerB] ! players_gen g"
      unfolding d(8) using other_player_nth[OF d(7)] by simp
    moreover have "1 - (1 - players_gen g) = players_gen g" using d(7) by simp
    ultimately show ?thesis using False by (simp add: cur' gen')
  qed
  have hist: "a' < length (heap g') \<and> a' \<noteq> state g'" if "a' \<in> set (history g')" for a'
    using that d(9)[of a'] d(2) by (auto simp: hi' h' s' split: if_splits)
  show ?thesis
    unfolding game_inv_def
    using r' cols gen2 cur2 hist d(1,2,5,6)
    by (simp add: bs' ps' pv' s' h')
qed

lemma reached_inv: "reached bs sh n g \<Longrightarrow> game_inv bs g"
proof (induction rule: reached.induct)
  case (start bs sh)
  show ?case by (rule game_inv_init)
next
  case (accepted bs sh n g rnd move g')
  then show ?case using game_inv_play by blast
next
  case (rejected bs sh n g rnd move e g')
  then show ?case using play_rejected by blast
qed

section \<open>Further facts used by the claims\<close>

lemma reached_0: "reached bs sh n g \<Longrightarrow> n = 0 \<Longrightarrow> g = init_game bs sh"
proof (induction rule: reached.induct)
  case (rejected bs sh n g rnd move e g')
  then show ?case using play_rejected by blast
qed simp_all

lemma play_seq_Cons: "play_seq g (m # ms) = play_seq (snd (play 0 g (Some m))) ms"
  by (simp add: play_seq_def)

lemma reached_play_seq_aux:
  "reached bs sh n g \<Longrightarrow> accepted_seq g ms \<Longrightarrow> reached bs sh (n + length ms) (play_seq g ms)"
proof (induction ms arbitrary: n g)
  case Nil
  then show ?case by (simp add: play_seq_def)
next
  case (Cons m ms)
  from Cons.prems(2) have "play 0 g (Some m) = (None, snd (play 0 g (Some m)))"
    by (simp add: prod_eq_iff)
  with Cons.prems(1) have "reached bs sh (Suc n) (snd (play 0 g (Some m)))"
    by (rule reached.accepted)
  with Cons.IH[of "Suc n" "snd (play 0 g (Some m))"] Cons.prems(2) show ?case
    by (simp add: play_seq_Cons)
qed

lemma reached_play_seq:
  "reached bs sh n g \<Longrightarrow> accepted_seq g ms \<Longrightarrow> k = n + length ms \<Longrightarrow>
   reached bs sh k (play_seq g ms)"
  using reached_play_seq_aux by simp

lemma np_set_nth:
  "i < length x \<Longrightarrow> c < length (x ! i) \<Longrightarrow>
   np_set x i c v ! r ! c' = (if r = i \<and> c' = c then v else x ! r ! c')"
  by (auto simp: np_set_def nth_list_update)

lemma count_update:
  assumes "c < length xs" and "xs ! c = (0::int)" and "v \<noteq> 0"
  shows "length (filter (\<lambda>u. u \<noteq> 0) (xs[c := v])) = Suc (length (filter (\<lambda>u. u \<noteq> 0) xs))"
proof -
  define ys zs where "ys = take c xs" and "zs = drop (Suc c) xs"
  have xs: "xs = ys @ 0 # zs"
    unfolding ys_def zs_def using id_take_nth_drop[OF assms(1)] assms(2) by simp
  have len: "length ys = c" unfolding ys_def using assms(1) by simp
  have "xs[c := v] = ys @ v # zs"
    unfolding xs using len by (simp add: list_update_append)
  then show ?thesis
    using assms(3) by (simp add: xs)
qed

lemma concat_update:
  assumes "i < length x"
  shows "\<exists>p q. concat x = p @ x ! i @ q \<and> concat (x[i := r]) = p @ r @ q"
proof -
  have "x = take i x @ x ! i # drop (Suc i) x"
    using assms by (rule id_take_nth_drop)
  then have "concat x = concat (take i x) @ x ! i @ concat (drop (Suc i) x)"
    by (metis concat.simps(2) concat_append)
  moreover have "concat (x[i := r]) = concat (take i x) @ r @ concat (drop (Suc i) x)"
    using upd_conv_take_nth_drop[OF assms, of r] by simp
  ultimately show ?thesis by blast
qed

lemma occupied_np_set:
  assumes "i < length x" and "c < length (x ! i)" and "x ! i ! c = 0" and "v \<noteq> 0"
  shows "occupied (np_set x i c v) = occupied x + 1"
proof -
  obtain p q where "concat x = p @ x ! i @ q"
    and "concat (x[i := (x ! i)[c := v]]) = p @ (x ! i)[c := v] @ q"
    using concat_update[OF assms(1)] by blast
  then show ?thesis
    using count_update[OF assms(2,3,4)] by (simp add: occupied_def np_set_def)
qed

lemma other_player_cases:
  "other_player playerA = playerB" "other_player playerB = playerA" "playerA \<noteq> playerB"
  by (simp_all add: other_player_def playerA_def playerB_def)

lemma current_player_cases:
  assumes "game_inv bs g"
  shows "current_player g = playerA \<or> current_player g = playerB"
proof -
  have "players_gen g < 2" and "current_player g = [playerA, playerB] ! (1 - players_gen g)"
    using game_invD[OF assms] by simp_all
  then show ?thesis by (cases "players_gen g") auto
qed

lemma board_init: "board (init_game bs sh) = np_zeros bs"
  by (simp add: board_def init_game_def next_player_def)

lemma current_player_init: "current_player (init_game bs sh) = playerA"
  by (simp add: init_game_def next_player_def)

lemma col_ok_free:
  assumes "col_ok col"
  shows "length (filter (\<lambda>v. v \<notin> set [1, 2]) col) \<noteq> 0 \<longleftrightarrow> 0 \<in> set col"
proof -
  from assms obtain a ys where col: "col = replicate a 0 @ ys" and ys: "set ys \<subseteq> {1, 2}"
    unfolding col_ok_def by blast
  have "filter (\<lambda>v. v \<notin> set [1, 2]) ys = []" using ys by (auto simp: filter_empty_conv)
  moreover have "0 \<notin> set ys" using ys by auto
  ultimately show ?thesis unfolding col by (cases a) auto
qed

lemma snapshots_play:
  assumes inv: "game_inv bs g" and pl: "play rnd g move = (None, g')"
  shows "snapshots g' = (if save_history g then snapshots g @ [board g'] else [board g'])"
    and "save_history g' = save_history g"
proof -
  from inv pl obtain c a where
    h': "heap g' = (heap g)[state g := board g'] @ [board g']"
    and hi': "history g' = (if save_history g then history g @ [length (heap g)] else [length (heap g)])"
    and sh': "save_history g' = save_history g"
    by (rule play_accepted_inv)
  show "save_history g' = save_history g" by (rule sh')
  have old: "heap g' ! a' = heap g ! a'" if "a' \<in> set (history g)" for a'
  proof -
    from game_invD(9)[OF inv that] have "a' < length (heap g)" and "a' \<noteq> state g" by simp_all
    then show ?thesis unfolding h' by (simp add: nth_append)
  qed
  have new: "heap g' ! length (heap g) = board g'"
    unfolding h' by (simp add: nth_append)
  have "map (\<lambda>a'. heap g' ! a') (history g) = map (\<lambda>a'. heap g ! a') (history g)"
    using old by simp
  then show "snapshots g' = (if save_history g then snapshots g @ [board g'] else [board g'])"
    using new by (simp add: snapshots_def hi')
qed

lemma reached_history:
  "reached bs sh n g \<Longrightarrow>
     save_history g = sh \<and>
     (sh \<longrightarrow> length (snapshots g) = n + 1 \<and> snapshots g ! 0 = np_zeros bs \<and>
             last (snapshots g) = board g) \<and>
     (\<not> sh \<longrightarrow> snapshots g = [board g])"
proof (induction rule: reached.induct)
  case (start bs sh)
  show ?case
    by (simp add: init_game_def next_player_def snapshots_def board_def)
next
  case (accepted bs sh n g rnd move g')
  note inv = reached_inv[OF accepted.hyps(1)]
  note sn = snapshots_play[OF inv accepted.hyps(2)]
  from accepted.IH have sh: "save_history g = sh" by simp
  show ?case
  proof (cases sh)
    case True
    with accepted.IH have len: "length (snapshots g) = n + 1"
      and z: "snapshots g ! 0 = np_zeros bs" by simp_all
    have s': "snapshots g' = snapshots g @ [board g']" using sn(1) sh True by simp
    have "(snapshots g @ [board g']) ! 0 = snapshots g ! 0"
      using len by (simp add: nth_append)
    then show ?thesis using True sn(2) sh len z by (simp add: s')
  next
    case False
    then show ?thesis using sn sh by simp
  qed
next
  case (rejected bs sh n g rnd move e g')
  then show ?case using play_rejected by blast
qed

subsection \<open>The pattern search and the four lines\<close>

lemma str_nat_small: "n < 10 \<Longrightarrow> str_nat n = [''0123456789'' ! n]"
  by (subst str_nat.simps) simp

lemma str_int_small: "v \<in> {0, 1, 2} \<Longrightarrow> str_int v = [digit v]"
  by (auto simp: str_int_def str_nat_small digit_def)

lemma concat_str_int: "set xs \<subseteq> {0, 1, 2} \<Longrightarrow> concat (map str_int xs) = map digit xs"
  by (induction xs) (simp_all add: str_int_small)

lemma pattern_str_int: "v \<in> {0, 1, 2} \<Longrightarrow> concat (replicate 4 (str_int v)) = map digit (replicate 4 v)"
  using concat_str_int[of "replicate 4 v"] by (simp add: map_replicate_const)

lemma inj_on_digit: "inj_on digit {0, 1, 2}"
  by (auto simp: inj_on_def digit_def)

lemma sublist_map_inj:
  assumes "inj_on f (set xs \<union> set ys)"
  shows "sublist (map f ys) (map f xs) \<longleftrightarrow> sublist ys xs"
proof
  assume "sublist (map f ys) (map f xs)"
  then obtain ps ss where "map f xs = ps @ map f ys @ ss" unfolding sublist_def by blast
  then have "\<exists>us vs. xs = us @ vs \<and> ps = map f us \<and> map f ys @ ss = map f vs"
    by (simp only: map_eq_append_conv)
  then obtain us vs where xs: "xs = us @ vs" and "map f vs = map f ys @ ss"
    by metis
  then have "\<exists>ws ts. vs = ws @ ts \<and> map f ys = map f ws \<and> ss = map f ts"
    by (simp only: map_eq_append_conv)
  then obtain ws ts where vs: "vs = ws @ ts" and eq: "map f ws = map f ys"
    by metis
  have "inj_on f (set ws \<union> set ys)"
    using assms xs vs by (auto intro: inj_on_subset)
  with eq have "ws = ys" by (simp add: inj_on_map_eq_map)
  with xs vs show "sublist ys xs" unfolding sublist_def by blast
next
  assume "sublist ys xs"
  then show "sublist (map f ys) (map f xs)" by (rule map_mono_sublist)
qed

lemma pattern_has_four:
  assumes "v \<in> {1, 2}" and "set xs \<subseteq> {0, 1, 2}"
  shows "sublist (concat (replicate 4 (str_int v))) (concat (map str_int xs)) \<longleftrightarrow> has_four v xs"
proof -
  have "inj_on digit (set xs \<union> set (replicate 4 v))"
    using assms by (intro inj_on_subset[OF inj_on_digit]) auto
  from sublist_map_inj[OF this] show ?thesis
    using assms by (simp add: pattern_str_int concat_str_int has_four_def)
qed

lemma map_filter_cong:
  assumes "\<And>t. t \<in> set xs \<Longrightarrow> P t = Q t" and "\<And>t. t \<in> set xs \<Longrightarrow> Q t \<Longrightarrow> f t = g t"
  shows "map f (filter P xs) = map g (filter Q xs)"
  using assms by (induction xs) auto

lemma column_upt: "column x c = map (\<lambda>r. x ! r ! c) [0..<length x]"
  by (rule nth_equalityI) (simp_all add: column_def)

lemma row_upt: "map (\<lambda>c. xs ! c) [0..<length xs] = xs"
  by (rule map_nth)

lemma py_slice_window:
  assumes "a < n"
  shows "py_slice (max (int a - 3) 0) (int a + 4) (map f [0..<n]) = map f [a - 3..<min (a + 4) n]"
proof -
  have lo: "slice_bound n (max (int a - 3) 0) = a - 3"
    using assms by (auto simp: slice_bound_def)
  have hi: "slice_bound n (int a + 4) = min (a + 4) n"
    by (auto simp: slice_bound_def nat_add_distrib)
  have "a - 3 + (min (a + 4) n - (a - 3)) = min (a + 4) n"
    using assms by arith
  moreover have "a - 3 + (min (a + 4) n - (a - 3)) \<le> n"
    using assms by arith
  ultimately have "take (min (a + 4) n - (a - 3)) [a - 3..<n] = [a - 3..<min (a + 4) n]"
    using take_upt[of "a - 3" "min (a + 4) n - (a - 3)" n] by simp
  then show ?thesis
    by (simp add: py_slice_def lo hi take_map drop_map)
qed

lemma vertical_space:
  assumes "a < length x"
  shows "py_slice (max (int a - 3) 0) (int a + 4) (column x c) = vertical_segment x a c"
  unfolding column_upt vertical_segment_def by (rule py_slice_window[OF assms])

lemma horizontal_space:
  assumes "a < length x" and "c < length (x ! a)"
  shows "py_slice (max (int c - 3) 0) (int c + 4) (x ! np_wrap (length x) (int a)) =
         horizontal_segment x a c"
proof -
  have w: "np_wrap (length x) (int a) = a" by (simp add: np_wrap_def)
  have "py_slice (max (int c - 3) 0) (int c + 4) (map (\<lambda>c. x ! a ! c) [0..<length (x ! a)]) =
        map (\<lambda>c. x ! a ! c) [c - 3..<min (c + 4) (length (x ! a))]"
    by (rule py_slice_window[OF assms(2)])
  then show ?thesis
    unfolding w horizontal_segment_def row_upt .
qed

lemma diagonal_space: "np_diagonal x (int c - int a) = diagonal_through x a c"
  unfolding np_diagonal_def diagonal_through_def
proof (rule map_filter_cong)
  fix t
  show "(0 \<le> int t + (int c - int a) \<and> int t + (int c - int a) < int (length (x ! t))) =
        (a \<le> t + c \<and> t + c - a < length (x ! t))"
    by auto
  assume "a \<le> t + c \<and> t + c - a < length (x ! t)"
  then have "nat (int t + (int c - int a)) = t + c - a" by auto
  then show "x ! t ! nat (int t + (int c - int a)) = x ! t ! (t + c - a)" by simp
qed

lemma antidiagonal_space:
  assumes r: "rect bs x" and sz: "fst bs + 1 = snd bs"
  shows "np_diagonal (map rev x) (int (length x) - (int a + int c)) = antidiagonal_through x a c"
  unfolding np_diagonal_def antidiagonal_through_def length_map
proof (rule map_filter_cong)
  fix t assume "t \<in> set [0..<length x]"
  then have t: "t < length x" by simp
  have R: "length x = fst bs" using r by (simp add: rect_def)
  have len: "length (x ! t) = fst bs + 1" using rect_row_length[OF r, of t] t R sz by simp
  have nth: "map rev x ! t = rev (x ! t)" using t by simp
  show "(0 \<le> int t + (int (length x) - (int a + int c)) \<and>
         int t + (int (length x) - (int a + int c)) < int (length (map rev x ! t))) =
        (t \<le> a + c \<and> a + c - t < length (x ! t))"
    unfolding nth length_rev len R by auto
  assume q: "t \<le> a + c \<and> a + c - t < length (x ! t)"
  then have m: "nat (int t + (int (length x) - (int a + int c))) = t + fst bs - (a + c)"
    unfolding len R by auto
  have lt: "t + fst bs - (a + c) < length (x ! t)" using q unfolding len by auto
  have "length (x ! t) - Suc (t + fst bs - (a + c)) = a + c - t"
    using q unfolding len by auto
  then show "map rev x ! t ! nat (int t + (int (length x) - (int a + int c))) = x ! t ! (a + c - t)"
    unfolding nth m using rev_nth[OF lt] by simp
qed

lemma col_ok_cells: "col_ok col \<Longrightarrow> set col \<subseteq> {0, 1, 2}"
  unfolding col_ok_def by auto

lemma game_inv_cell:
  assumes inv: "game_inv bs g" and r: "r < fst bs" and c: "c < snd bs"
  shows "board g ! r ! c \<in> {0, 1, 2}"
proof -
  note rc = game_invD(3)[OF inv]
  have lr: "r < length (board g)" using rc r by (simp add: rect_def)
  have "column (board g) c ! r \<in> set (column (board g) c)"
    using rect_column_length[OF rc, of c] r by simp
  then show ?thesis
    using col_ok_cells[OF game_invD(4)[OF inv c]] column_nth[OF lr, of c] by auto
qed

lemma lines_cells_in:
  assumes rc: "rect bs x" and cells: "\<And>r c. r < fst bs \<Longrightarrow> c < snd bs \<Longrightarrow> x ! r ! c \<in> S"
    and a: "a < fst bs" and c: "c < snd bs"
  shows "set (vertical_segment x a c) \<subseteq> S"
    and "set (horizontal_segment x a c) \<subseteq> S"
    and "set (diagonal_through x a c) \<subseteq> S"
    and "set (antidiagonal_through x a c) \<subseteq> S"
proof -
  have R: "length x = fst bs" using rc by (simp add: rect_def)
  have C: "length (x ! r) = snd bs" if "r < fst bs" for r
    using rect_row_length[OF rc that] .
  show "set (vertical_segment x a c) \<subseteq> S"
    unfolding vertical_segment_def R using c by (auto intro!: cells)
  show "set (horizontal_segment x a c) \<subseteq> S"
    unfolding horizontal_segment_def C[OF a] using a by (auto intro!: cells)
  show "set (diagonal_through x a c) \<subseteq> S"
    unfolding diagonal_through_def R using C by (auto intro!: cells)
  show "set (antidiagonal_through x a c) \<subseteq> S"
    unfolding antidiagonal_through_def R using C by (auto intro!: cells)
qed

lemmas lines_cells = lines_cells_in[where S = "{0, 1, 2}"]

lemma pattern_found_lines:
  assumes rc: "rect bs x" and cells: "\<And>r c. r < fst bs \<Longrightarrow> c < snd bs \<Longrightarrow> x ! r ! c \<in> {0, 1, 2}"
    and a: "a < fst bs" and c: "c < snd bs" and v: "v \<in> {1, 2}" and sz: "fst bs + 1 = snd bs"
  shows "pattern_found x (int a) c v \<longleftrightarrow> four_in_line x a c v"
proof -
  have la: "a < length x" using rc a by (simp add: rect_def)
  have lc: "c < length (x ! a)" using rect_row_length[OF rc a] c by simp
  have sp: "spaces_to_check x (int a) c =
      [vertical_segment x a c, horizontal_segment x a c,
       diagonal_through x a c, antidiagonal_through x a c]"
    unfolding spaces_to_check_def
    by (simp only: vertical_space[OF la] horizontal_space[OF la lc] diagonal_space
        antidiagonal_space[OF rc sz])
  note l = lines_cells[OF rc cells a c]
  show ?thesis
    unfolding pattern_found_def sp four_in_line_def
    by (simp add: pattern_has_four[OF v l(1)] pattern_has_four[OF v l(2)]
        pattern_has_four[OF v l(3)] pattern_has_four[OF v l(4)])
qed

section \<open>The claims\<close>

text \<open>
  C1 on a 4 x 4 board. Eleven moves are accepted; the last one, by player A, lands in the
  cell (0, 3) and completes four A pieces on the diagonal (0, 3), (1, 2), (2, 1), (3, 0),
  one of the four lines through that cell. The fourth space that \<open>play\<close> checks is the
  neighbouring diagonal \<open>[0, 0, 2]\<close>: its offset is computed from the number of rows,
  \<open>len(x)\<close>, where the number of columns minus one is needed, and the two agree only when
  the board has one column more than it has rows. No winner is set.
\<close>

theorem antidiagonal_win_missed:
  "accepted_seq (init_game (4, 4) True) [0, 1, 1, 2, 2, 3, 2, 3, 3, 0, 3] \<and>
   board (play_seq (init_game (4, 4) True) [0, 1, 1, 2, 2, 3, 2, 3, 3, 0, 3]) =
     [[0, 0, 0, 1],
      [0, 0, 1, 1],
      [2, 1, 1, 2],
      [1, 2, 2, 2]] \<and>
   current_player (play_seq (init_game (4, 4) True) [0, 1, 1, 2, 2, 3, 2, 3, 3, 0]) = playerA \<and>
   row_number (play_seq (init_game (4, 4) True) [0, 1, 1, 2, 2, 3, 2, 3, 3, 0]) 3 = 0 \<and>
   last_play (play_seq (init_game (4, 4) True) [0, 1, 1, 2, 2, 3, 2, 3, 3, 0, 3]) = Some 3 \<and>
   antidiagonal_through
     (board (play_seq (init_game (4, 4) True) [0, 1, 1, 2, 2, 3, 2, 3, 3, 0, 3])) 0 3 = [1, 1, 1, 1] \<and>
   four_in_line (board (play_seq (init_game (4, 4) True) [0, 1, 1, 2, 2, 3, 2, 3, 3, 0, 3])) 0 3 1 \<and>
   spaces_to_check (board (play_seq (init_game (4, 4) True) [0, 1, 1, 2, 2, 3, 2, 3, 3, 0, 3])) 0 3 =
     [[1, 1, 2, 2], [0, 0, 0, 1], [1], [0, 0, 2]] \<and>
   winner (play_seq (init_game (4, 4) True) [0, 1, 1, 2, 2, 3, 2, 3, 3, 0, 3]) = None"
proof -
  have "accepted_seq (init_game (4, 4) True) [0, 1, 1, 2, 2, 3, 2, 3, 3, 0, 3]" by code_simp
  moreover have "board (play_seq (init_game (4, 4) True) [0, 1, 1, 2, 2, 3, 2, 3, 3, 0, 3]) =
     [[0, 0, 0, 1], [0, 0, 1, 1], [2, 1, 1, 2], [1, 2, 2, 2]]" by code_simp
  moreover have "current_player (play_seq (init_game (4, 4) True) [0, 1, 1, 2, 2, 3, 2, 3, 3, 0]) = playerA"
    by code_simp
  moreover have "row_number (play_seq (init_game (4, 4) True) [0, 1, 1, 2, 2, 3, 2, 3, 3, 0]) 3 = 0"
    by code_simp
  moreover have "last_play (play_seq (init_game (4, 4) True) [0, 1, 1, 2, 2, 3, 2, 3, 3, 0, 3]) = Some 3"
    by code_simp
  moreover have "antidiagonal_through
     (board (play_seq (init_game (4, 4) True) [0, 1, 1, 2, 2, 3, 2, 3, 3, 0, 3])) 0 3 = [1, 1, 1, 1]"
    by code_simp
  moreover have "four_in_line (board (play_seq (init_game (4, 4) True) [0, 1, 1, 2, 2, 3, 2, 3, 3, 0, 3])) 0 3 1"
    by code_simp
  moreover have "spaces_to_check (board (play_seq (init_game (4, 4) True) [0, 1, 1, 2, 2, 3, 2, 3, 3, 0, 3])) 0 3 =
     [[1, 1, 2, 2], [0, 0, 0, 1], [1], [0, 0, 2]]" by code_simp
  moreover have "winner (play_seq (init_game (4, 4) True) [0, 1, 1, 2, 2, 3, 2, 3, 3, 0, 3]) = None"
    by code_simp
  ultimately show ?thesis by blast
qed

text \<open>
  C1 on the boards where the offset is right. In every reachable game on a board with one
  column more than rows, as the default 6 x 7 one, an accepted play that lands in the cell
  \<open>(i, c)\<close> sets the winner to the player who moved if one of the four lines through that
  cell holds four consecutive cells of that player, and leaves it unset otherwise.
\<close>

theorem win_detection_one_more_column:
  assumes "reached bs sh n g" and "fst bs + 1 = snd bs" and "play rnd g move = (None, g')"
  shows "\<exists>c i. select_move rnd (legal_plays g) move = Inr c \<and> row_number g c = int i \<and>
           board g' ! i ! c = p_value (current_player g) \<and>
           winner g' =
             (if four_in_line (board g') i c (p_value (current_player g))
              then Some (current_player g) else None)"
proof -
  note inv = reached_inv[OF assms(1)]
  note inv' = game_inv_play[OF inv assms(3)]
  from inv assms(3) obtain c a where sel: "select_move rnd (legal_plays g) move = Inr c"
    and c: "c < snd bs" and a: "a < fst bs" and row: "row_number g c = int a"
    and b': "board g' = np_set (board g) a c (p_value (current_player g))"
    and w: "winner' g' = (if pattern_found (board g') (int a) c (p_value (current_player g))
                       then Some (current_player g) else None)"
    by (rule play_accepted_inv)
  note rc = game_invD(3)[OF inv]
  have la: "a < length (board g)" using rc a by (simp add: rect_def)
  have lc: "c < length (board g ! a)" using rect_row_length[OF rc a] c by simp
  have cell: "board g' ! a ! c = p_value (current_player g)"
    unfolding b' using np_set_nth[OF la lc, of "p_value (current_player g)" a c] by simp
  have "pattern_found (board g') (int a) c (p_value (current_player g)) \<longleftrightarrow>
        four_in_line (board g') a c (p_value (current_player g))"
    using game_invD(3)[OF inv'] game_inv_cell[OF inv'] a c current_value[OF inv] assms(2)
    by (rule pattern_found_lines)
  with w have "winner g' = (if four_in_line (board g') a c (p_value (current_player g))
              then Some (current_player g) else None)"
    by (simp add: winner_def)
  with sel row cell show ?thesis by blast
qed

text \<open>
  On the 6 x 7 board the eleventh move completes the diagonal (2, 3), (3, 2), (4, 1), (5, 0),
  and A wins.
\<close>

theorem win_detection_one_more_column_witness:
  "reached (6, 7) True 10 (play_seq (init_game (6, 7) True) [0, 1, 1, 2, 2, 3, 2, 3, 3, 6]) \<and>
   fst (6::nat, 7::nat) + 1 = snd (6::nat, 7::nat) \<and>
   play 0 (play_seq (init_game (6, 7) True) [0, 1, 1, 2, 2, 3, 2, 3, 3, 6]) (Some 3) =
     (None, play_seq (init_game (6, 7) True) [0, 1, 1, 2, 2, 3, 2, 3, 3, 6, 3]) \<and>
   row_number (play_seq (init_game (6, 7) True) [0, 1, 1, 2, 2, 3, 2, 3, 3, 6]) 3 = 2 \<and>
   four_in_line (board (play_seq (init_game (6, 7) True) [0, 1, 1, 2, 2, 3, 2, 3, 3, 6, 3])) 2 3 1 \<and>
   winner (play_seq (init_game (6, 7) True) [0, 1, 1, 2, 2, 3, 2, 3, 3, 6, 3]) = Some playerA"
proof -
  let ?g = "play_seq (init_game (6, 7) True) [0, 1, 1, 2, 2, 3, 2, 3, 3, 6]"
  let ?g' = "play_seq (init_game (6, 7) True) [0, 1, 1, 2, 2, 3, 2, 3, 3, 6, 3]"
  have "accepted_seq (init_game (6, 7) True) [0, 1, 1, 2, 2, 3, 2, 3, 3, 6]" by code_simp
  then have r: "reached (6, 7) True 10 ?g"
    by (rule reached_play_seq[OF reached.start]) simp
  have sz: "fst (6::nat, 7::nat) + 1 = snd (6::nat, 7::nat)" by simp
  have f: "fst (play 0 ?g (Some 3)) = None" by code_simp
  have "snd (play 0 ?g (Some 3)) = ?g'" by (simp add: play_seq_def)
  with f have p: "play 0 ?g (Some 3) = (None, ?g')" by (simp add: prod_eq_iff)
  have s: "select_move 0 (legal_plays ?g) (Some 3) = Inr 3" by code_simp
  have row: "row_number ?g 3 = 2" by code_simp
  have cur: "current_player ?g = playerA" by code_simp
  have four: "four_in_line (board ?g') 2 3 1" by code_simp
  from win_detection_one_more_column[OF r sz p] s row cur four
  have "winner ?g' = Some playerA" by (auto simp: playerA_def)
  with r sz p row four show ?thesis by blast
qed

text \<open>
  C2. In every reachable game, an accepted play into column \<open>c\<close> lands in the row
  \<open>rows - k - 1\<close>, where \<open>k\<close> counts the non-empty cells of the column before the play.
  That cell was empty and now holds the value of the player who moved; every other cell of
  the grid is as before, and the number of occupied cells has grown by one.
\<close>

theorem play_drops_piece:
  assumes "reached bs sh n g" and "play rnd g move = (None, g')"
  shows "\<exists>c k. select_move rnd (legal_plays g) move = Inr c \<and> c < snd bs \<and>
           k = length (filter (\<lambda>v. v \<noteq> 0) (column (board g) c)) \<and> k < fst bs \<and>
           row_number g c = int (fst bs - k - 1) \<and>
           board g ! (fst bs - k - 1) ! c = 0 \<and>
           board g' ! (fst bs - k - 1) ! c = p_value (current_player g) \<and>
           p_value (current_player g) \<noteq> 0 \<and>
           rect bs (board g') \<and>
           (\<forall>r c'. r < fst bs \<and> c' < snd bs \<and> (r, c') \<noteq> (fst bs - k - 1, c) \<longrightarrow>
                board g' ! r ! c' = board g ! r ! c') \<and>
           occupied (board g') = occupied (board g) + 1"
proof -
  note inv = reached_inv[OF assms(1)]
  from inv assms(2) obtain c a ys where sel: "select_move rnd (legal_plays g) move = Inr c"
    and c: "c < snd bs" and a: "a < fst bs"
    and col: "column (board g) c = replicate (Suc a) 0 @ ys" and ys: "set ys \<subseteq> {1, 2}"
    and len: "fst bs = Suc a + length ys"
    and row: "row_number g c = int a"
    and b': "board g' = np_set (board g) a c (p_value (current_player g))"
    by (rule play_accepted_inv)
  let ?v = "p_value (current_player g)"
  let ?k = "length (filter (\<lambda>v. v \<noteq> 0) (column (board g) c))"
  have k: "?k = length ys" unfolding col using col_decomp_count[OF ys, of "Suc a"] by simp
  have ka: "fst bs - ?k - 1 = a" using k len by simp
  have r: "rect bs (board g)" by (rule game_invD(3)[OF inv])
  have la: "a < length (board g)" using r a by (simp add: rect_def)
  have lc: "c < length (board g ! a)" using rect_row_length[OF r a] c by simp
  have "column (board g) c ! a = 0" unfolding col by (simp add: nth_append del: replicate_Suc)
  then have empty: "board g ! a ! c = 0" using column_nth[OF la, of c] by simp
  have v: "?v \<noteq> 0" using current_value[OF inv] by auto
  have set: "board g' ! a ! c = ?v"
    unfolding b' using np_set_nth[OF la lc, of ?v a c] by simp
  have others: "board g' ! r ! c' = board g ! r ! c'" if "(r, c') \<noteq> (a, c)" for r c'
    unfolding b' using np_set_nth[OF la lc, of ?v r c'] that by auto
  have occ: "occupied (board g') = occupied (board g) + 1"
    unfolding b' by (rule occupied_np_set[OF la lc empty v])
  have r': "rect bs (board g')" unfolding b' by (rule rect_np_set[OF r])
  have "select_move rnd (legal_plays g) move = Inr c \<and> c < snd bs \<and>
           ?k = length (filter (\<lambda>v. v \<noteq> 0) (column (board g) c)) \<and> ?k < fst bs \<and>
           row_number g c = int (fst bs - ?k - 1) \<and>
           board g ! (fst bs - ?k - 1) ! c = 0 \<and>
           board g' ! (fst bs - ?k - 1) ! c = p_value (current_player g) \<and>
           p_value (current_player g) \<noteq> 0 \<and>
           rect bs (board g') \<and>
           (\<forall>r c'. r < fst bs \<and> c' < snd bs \<and> (r, c') \<noteq> (fst bs - ?k - 1, c) \<longrightarrow>
                board g' ! r ! c' = board g ! r ! c') \<and>
           occupied (board g') = occupied (board g) + 1"
    unfolding ka using sel c k len row empty set v r' others occ by simp
  then show ?thesis by blast
qed

text \<open>
  The third move of a game on the 6 x 7 board: column 3 holds one piece, and the new one
  lands in row 4.
\<close>

theorem play_drops_piece_witness:
  "reached (6, 7) True 2 (play_seq (init_game (6, 7) True) [3, 0]) \<and>
   play 0 (play_seq (init_game (6, 7) True) [3, 0]) (Some 3) =
     (None, play_seq (init_game (6, 7) True) [3, 0, 3]) \<and>
   length (filter (\<lambda>v. v \<noteq> 0) (column (board (play_seq (init_game (6, 7) True) [3, 0])) 3)) = 1 \<and>
   board (play_seq (init_game (6, 7) True) [3, 0]) ! 4 ! 3 = 0 \<and>
   board (play_seq (init_game (6, 7) True) [3, 0, 3]) ! 4 ! 3 = 1 \<and>
   occupied (board (play_seq (init_game (6, 7) True) [3, 0, 3])) =
     occupied (board (play_seq (init_game (6, 7) True) [3, 0])) + 1"
proof -
  have "accepted_seq (init_game (6, 7) True) [3, 0]" by code_simp
  then have r: "reached (6, 7) True 2 (play_seq (init_game (6, 7) True) [3, 0])"
    by (rule reached_play_seq[OF reached.start]) simp
  have f: "fst (play 0 (play_seq (init_game (6, 7) True) [3, 0]) (Some 3)) = None" by code_simp
  have "snd (play 0 (play_seq (init_game (6, 7) True) [3, 0]) (Some 3)) =
          play_seq (init_game (6, 7) True) [3, 0, 3]"
    by (simp add: play_seq_def)
  with f have p: "play 0 (play_seq (init_game (6, 7) True) [3, 0]) (Some 3) =
     (None, play_seq (init_game (6, 7) True) [3, 0, 3])"
    by (simp add: prod_eq_iff)
  have s: "select_move 0 (legal_plays (play_seq (init_game (6, 7) True) [3, 0])) (Some 3) = Inr 3"
    by code_simp
  have k: "length (filter (\<lambda>v. v \<noteq> 0) (column (board (play_seq (init_game (6, 7) True) [3, 0])) 3)) = 1"
    by code_simp
  have v: "p_value (current_player (play_seq (init_game (6, 7) True) [3, 0])) = 1"
    by code_simp
  show ?thesis
    using r p play_drops_piece[OF r p] s k v by auto
qed

text \<open>
  C3. In every reachable game without a winner, \<open>legal_plays\<close> is the list of the columns
  that hold an empty cell, by strictly increasing index; with a winner it is empty, whatever
  cells are free. \<open>legal_plays\<close> is a function of the game and returns a list only: the
  source function assigns no attribute.
\<close>

theorem legal_plays_columns:
  assumes "reached bs sh n g"
  shows "legal_plays g =
           (if winner g = None then filter (\<lambda>c. 0 \<in> set (column (board g) c)) [0..<snd bs]
            else []) \<and>
         sorted_wrt (<) (legal_plays g)"
proof -
  note inv = reached_inv[OF assms]
  note r = game_invD(3)[OF inv] and pv = game_invD(6)[OF inv]
  have srt: "sorted_wrt (<) (legal_plays g)"
    by (simp add: legal_plays_def sorted_wrt_filter)
  have eq: "legal_plays g = filter (\<lambda>c. 0 \<in> set (column (board g) c)) [0..<snd bs]"
    if w: "winner g = None"
  proof (cases "fst bs = 0")
    case True
    then have "board g = []" using r by (simp add: rect_def)
    then show ?thesis using w by (simp add: legal_plays_def ncols_def column_def)
  next
    case False
    then have nc: "ncols (board g) = snd bs" using rect_ncols_eq[OF r] by simp
    have "filter (\<lambda>c. length (filter (\<lambda>v. v \<notin> set (players_values g)) (column (board g) c)) \<noteq> 0)
            [0..<snd bs] =
          filter (\<lambda>c. 0 \<in> set (column (board g) c)) [0..<snd bs]"
    proof (rule filter_cong[OF refl])
      fix c assume "c \<in> set [0..<snd bs]"
      then have "c < snd bs" by simp
      from col_ok_free[OF game_invD(4)[OF inv this]]
      show "(length (filter (\<lambda>v. v \<notin> set (players_values g)) (column (board g) c)) \<noteq> 0) =
            (0 \<in> set (column (board g) c))"
        unfolding pv .
    qed
    then show ?thesis using w nc by (simp add: legal_plays_def)
  qed
  have "winner g \<noteq> None \<Longrightarrow> legal_plays g = []" by (auto simp: legal_plays_def)
  with eq srt show ?thesis by simp
qed

text \<open>
  All seven columns are legal on the empty board; none is, once A has four in column 3.
\<close>

theorem legal_plays_columns_witness:
  "reached (6, 7) True 0 (init_game (6, 7) True) \<and>
   legal_plays (init_game (6, 7) True) = [0, 1, 2, 3, 4, 5, 6] \<and>
   reached (6, 7) True 7 (play_seq (init_game (6, 7) True) [3, 0, 3, 0, 3, 0, 3]) \<and>
   winner (play_seq (init_game (6, 7) True) [3, 0, 3, 0, 3, 0, 3]) = Some playerA \<and>
   legal_plays (play_seq (init_game (6, 7) True) [3, 0, 3, 0, 3, 0, 3]) = []"
proof -
  have r0: "reached (6, 7) True 0 (init_game (6, 7) True)" by (rule reached.start)
  have "accepted_seq (init_game (6, 7) True) [3, 0, 3, 0, 3, 0, 3]" by code_simp
  then have r7: "reached (6, 7) True 7 (play_seq (init_game (6, 7) True) [3, 0, 3, 0, 3, 0, 3])"
    by (rule reached_play_seq[OF r0]) simp
  have w0: "winner (init_game (6, 7) True) = None" by code_simp
  have f0: "filter (\<lambda>c. 0 \<in> set (column (board (init_game (6, 7) True)) c)) [0..<snd (6::nat, 7::nat)] =
              [0, 1, 2, 3, 4, 5, 6]" by code_simp
  have w7: "winner (play_seq (init_game (6, 7) True) [3, 0, 3, 0, 3, 0, 3]) = Some playerA"
    by code_simp
  show ?thesis
    using r0 r7 w0 f0 w7 legal_plays_columns[OF r0] legal_plays_columns[OF r7] by simp
qed

text \<open>
  C4. In every game object, a supplied move that is not among the legal plays makes \<open>play\<close>
  raise the illegal-move error and leaves the whole object as it was. A negative column,
  a column index at or beyond the number of columns (column 7 of a 7-column board), and a
  column whose cells are all occupied by players are such moves.
\<close>

theorem illegal_move_rejected:
  assumes "m \<notin> int ` set (legal_plays g) \<or> m < 0 \<or> int (ncols (board g)) \<le> m \<or>
           (\<forall>v \<in> set (column (board g) (nat m)). v \<in> set (players_values g))"
  shows "play rnd g (Some m) = (Some IllegalMove, g)"
proof -
  have "m \<notin> int ` set (legal_plays g)"
  proof
    assume "m \<in> int ` set (legal_plays g)"
    then obtain c where c: "c \<in> set (legal_plays g)" and m: "m = int c" by blast
    from legal_playsD[OF c] assms c show False by (auto simp: m)
  qed
  then show ?thesis by (simp add: play_def select_move_def)
qed

text \<open>
  Column 7 on the empty 6 x 7 board, and column 0 once it holds six pieces.
\<close>

theorem illegal_move_rejected_witness:
  "int (ncols (board (init_game (6, 7) True))) \<le> 7 \<and>
   play 0 (init_game (6, 7) True) (Some 7) = (Some IllegalMove, init_game (6, 7) True) \<and>
   set (column (board (play_seq (init_game (6, 7) True) [0, 0, 0, 0, 0, 0])) (nat 0)) \<subseteq>
     set (players_values (play_seq (init_game (6, 7) True) [0, 0, 0, 0, 0, 0])) \<and>
   play 0 (play_seq (init_game (6, 7) True) [0, 0, 0, 0, 0, 0]) (Some 0) =
     (Some IllegalMove, play_seq (init_game (6, 7) True) [0, 0, 0, 0, 0, 0])"
proof -
  have h1: "int (ncols (board (init_game (6, 7) True))) \<le> 7" by code_simp
  have h2: "set (column (board (play_seq (init_game (6, 7) True) [0, 0, 0, 0, 0, 0])) (nat 0)) \<subseteq>
       set (players_values (play_seq (init_game (6, 7) True) [0, 0, 0, 0, 0, 0]))" by code_simp
  show ?thesis
    using h1 h2 illegal_move_rejected[of 7 "init_game (6, 7) True" 0]
      illegal_move_rejected[of 0 "play_seq (init_game (6, 7) True) [0, 0, 0, 0, 0, 0]" 0]
    by blast
qed

text \<open>
  C5. Called without a move, \<open>play\<close> raises the no-legal-moves error when there is no legal
  play, and leaves the game as it was; otherwise the column it selects is one of the legal
  plays, and the call does what \<open>play\<close> does when given that column.
\<close>

theorem play_without_move:
  "(legal_plays g = [] \<longrightarrow> play rnd g None = (Some NoLegalMoves, g)) \<and>
   (legal_plays g \<noteq> [] \<longrightarrow>
      (\<exists>c \<in> set (legal_plays g). select_move rnd (legal_plays g) None = Inr c \<and>
                                   play rnd g None = play rnd g (Some (int c))))"
proof (intro conjI impI)
  assume "legal_plays g = []"
  then show "play rnd g None = (Some NoLegalMoves, g)"
    by (simp add: play_def select_move_def)
next
  assume ne: "legal_plays g \<noteq> []"
  let ?c = "legal_plays g ! (rnd mod length (legal_plays g))"
  have in_set: "?c \<in> set (legal_plays g)" using ne by simp
  have "select_move rnd (legal_plays g) None = Inr ?c"
    using ne by (simp add: select_move_def)
  moreover have "select_move rnd (legal_plays g) (Some (int ?c)) = Inr ?c"
    using in_set by (simp add: select_move_def)
  ultimately show "\<exists>c \<in> set (legal_plays g). select_move rnd (legal_plays g) None = Inr c \<and>
                                   play rnd g None = play rnd g (Some (int c))"
    using in_set by (intro bexI[of _ ?c]) (simp_all add: play_def)
qed

text \<open>
  A board without rows has no legal play; on the empty 6 x 7 board the draw 10 selects a
  legal column.
\<close>

theorem play_without_move_witness:
  "legal_plays (init_game (0, 7) True) = [] \<and>
   play 5 (init_game (0, 7) True) None = (Some NoLegalMoves, init_game (0, 7) True) \<and>
   legal_plays (init_game (6, 7) True) \<noteq> [] \<and>
   (\<exists>c \<in> set (legal_plays (init_game (6, 7) True)).
       select_move 10 (legal_plays (init_game (6, 7) True)) None = Inr c \<and>
       play 10 (init_game (6, 7) True) None = play 10 (init_game (6, 7) True) (Some (int c)))"
proof -
  have h1: "legal_plays (init_game (0, 7) True) = []" by code_simp
  have h2: "legal_plays (init_game (6, 7) True) \<noteq> []" by code_simp
  show ?thesis
    using h1 h2 play_without_move[of "init_game (0, 7) True" 5]
      play_without_move[of "init_game (6, 7) True" 10]
    by blast
qed

text \<open>
  C6. In every reachable game the registered players are A and B, the current player is one
  of them, and \<open>other_player\<close> swaps them. After a call of \<open>play\<close> the current player is the
  other one exactly when the call returned normally and left no winner; after a winning
  move and after a rejected move the current player is who it was.
\<close>

theorem player_rotation:
  assumes "reached bs sh n g" and "play rnd g move = (e, g')"
  shows "players g = [playerA, playerB] \<and>
         (current_player g = playerA \<or> current_player g = playerB) \<and>
         other_player (other_player (current_player g)) = current_player g \<and>
         other_player (current_player g) \<noteq> current_player g \<and>
         current_player g' =
           (if e = None \<and> winner g' = None then other_player (current_player g)
            else current_player g)"
proof -
  note inv = reached_inv[OF assms(1)]
  have cur: "current_player g = playerA \<or> current_player g = playerB"
    by (rule current_player_cases[OF inv])
  have step: "current_player g' =
           (if e = None \<and> winner g' = None then other_player (current_player g)
            else current_player g)"
  proof (cases e)
    case None
    with assms(2) have "play rnd g move = (None, g')" by simp
    with inv obtain c a where
      "winner' g' = (if pattern_found (board g') (int a) c (p_value (current_player g))
                       then Some (current_player g) else None)"
      and "current_player g' = (if pattern_found (board g') (int a) c (p_value (current_player g))
                       then current_player g else other_player (current_player g))"
      by (rule play_accepted_inv)
    then show ?thesis by (simp add: None winner_def)
  next
    case (Some err)
    with assms(2) play_rejected have "g' = g" by blast
    then show ?thesis using Some by simp
  qed
  show ?thesis
    using game_invD(5)[OF inv] cur step other_player_cases by auto
qed

text \<open>
  The first move of a game: A plays, nobody has won, and B is next.
\<close>

theorem player_rotation_witness:
  "reached (6, 7) True 0 (init_game (6, 7) True) \<and>
   fst (play 0 (init_game (6, 7) True) (Some 3)) = None \<and>
   winner (snd (play 0 (init_game (6, 7) True) (Some 3))) = None \<and>
   current_player (init_game (6, 7) True) = playerA \<and>
   current_player (snd (play 0 (init_game (6, 7) True) (Some 3))) = playerB"
proof -
  have r: "reached (6, 7) True 0 (init_game (6, 7) True)" by (rule reached.start)
  have f: "fst (play 0 (init_game (6, 7) True) (Some 3)) = None" by code_simp
  have w: "winner (snd (play 0 (init_game (6, 7) True) (Some 3))) = None" by code_simp
  have c: "current_player (init_game (6, 7) True) = playerA" by code_simp
  have p: "play 0 (init_game (6, 7) True) (Some 3) =
             (None, snd (play 0 (init_game (6, 7) True) (Some 3)))"
    using f by (simp add: prod_eq_iff)
  show ?thesis
    using r f w c player_rotation[OF r p] by (simp add: other_player_cases)
qed

text \<open>
  C7. With history retention, a game reached by \<open>n\<close> accepted moves holds \<open>n + 1\<close>
  snapshots, the first is the empty grid and the last is the current grid; an accepted move
  leaves the earlier snapshots as they were and appends the grid after the move. The
  snapshots are the arrays the history refers to, read in the store after the move: that
  they are unchanged says that the in-place update of the grid reaches none of them.
  Without retention the history holds the current grid only.
\<close>

theorem history_snapshots:
  assumes "reached bs sh n g"
  shows "(sh \<longrightarrow> length (history g) = n + 1 \<and> snapshots g ! 0 = np_zeros bs \<and>
                 last (snapshots g) = board g \<and>
                 (\<forall>rnd move g'. play rnd g move = (None, g') \<longrightarrow>
                     snapshots g' = snapshots g @ [board g'])) \<and>
         (\<not> sh \<longrightarrow> snapshots g = [board g])"
proof -
  note inv = reached_inv[OF assms]
  note h = reached_history[OF assms]
  have len: "length (history g) = length (snapshots g)" by (simp add: snapshots_def)
  have step: "snapshots g' = snapshots g @ [board g']"
    if "sh" and "play rnd g move = (None, g')" for rnd move g'
    using snapshots_play(1)[OF inv that(2)] h that(1) by simp
  show ?thesis using h len step by auto
qed

text \<open>
  Two moves into a game, with and without retention, and the third move with retention.
\<close>

theorem history_snapshots_witness:
  "reached (6, 7) True 2 (play_seq (init_game (6, 7) True) [3, 0]) \<and>
   length (history (play_seq (init_game (6, 7) True) [3, 0])) = 2 + 1 \<and>
   snapshots (play_seq (init_game (6, 7) True) [3, 0]) ! 0 = np_zeros (6, 7) \<and>
   play 0 (play_seq (init_game (6, 7) True) [3, 0]) (Some 3) =
     (None, play_seq (init_game (6, 7) True) [3, 0, 3]) \<and>
   snapshots (play_seq (init_game (6, 7) True) [3, 0, 3]) =
     snapshots (play_seq (init_game (6, 7) True) [3, 0]) @
       [board (play_seq (init_game (6, 7) True) [3, 0, 3])] \<and>
   reached (6, 7) False 2 (play_seq (init_game (6, 7) False) [3, 0]) \<and>
   snapshots (play_seq (init_game (6, 7) False) [3, 0]) =
     [board (play_seq (init_game (6, 7) False) [3, 0])]"
proof -
  have "accepted_seq (init_game (6, 7) True) [3, 0]" by code_simp
  then have r: "reached (6, 7) True 2 (play_seq (init_game (6, 7) True) [3, 0])"
    by (rule reached_play_seq[OF reached.start]) simp
  have "accepted_seq (init_game (6, 7) False) [3, 0]" by code_simp
  then have r': "reached (6, 7) False 2 (play_seq (init_game (6, 7) False) [3, 0])"
    by (rule reached_play_seq[OF reached.start]) simp
  have f: "fst (play 0 (play_seq (init_game (6, 7) True) [3, 0]) (Some 3)) = None" by code_simp
  have "snd (play 0 (play_seq (init_game (6, 7) True) [3, 0]) (Some 3)) =
          play_seq (init_game (6, 7) True) [3, 0, 3]"
    by (simp add: play_seq_def)
  with f have p: "play 0 (play_seq (init_game (6, 7) True) [3, 0]) (Some 3) =
     (None, play_seq (init_game (6, 7) True) [3, 0, 3])"
    by (simp add: prod_eq_iff)
  show ?thesis
    using r r' p history_snapshots[OF r] history_snapshots[OF r'] by blast
qed

text \<open>
  C8. A new game has no winner. Once the winner is set, every later call of \<open>play\<close> raises
  and leaves the game, hence the winner, as it was. A call that raises leaves the winner as
  it was. A call that returns normally started without a winner, and sets the winner exactly
  when the pattern search finds four in a row of the mover in the grid with the new piece,
  which is then the grid of the game: the winner is then the player who moved, and there is
  still no winner otherwise.
\<close>

theorem winner_set_once:
  assumes "play rnd g move = (e, g')"
  shows "winner (init_game bs sh) = None \<and>
         (\<forall>p. winner g = Some p \<longrightarrow> e \<noteq> None \<and> g' = g \<and> winner g' = Some p) \<and>
         (winner g = None \<and> winner g' \<noteq> None \<longrightarrow> e = None \<and> winner g' = Some (current_player g)) \<and>
         (e \<noteq> None \<longrightarrow> winner g' = winner g) \<and>
         (e = None \<longrightarrow>
            (\<exists>c. select_move rnd (legal_plays g) move = Inr c \<and> winner g = None \<and>
                 (state g < length (heap g) \<longrightarrow> board g' = placed g c) \<and>
                 winner g' =
                   (if pattern_found (placed g c) (row_number g c) c (p_value (current_player g))
                    then Some (current_player g) else None)))"
proof (intro conjI allI impI)
  show "winner (init_game bs sh) = None"
    by (simp add: winner_def init_game_def next_player_def)
next
  fix p assume w: "winner g = Some p"
  then have "legal_plays g = []" by (simp add: legal_plays_def)
  then have "select_move rnd (legal_plays g) move \<noteq> Inr c" for c
    using select_move_Inr[of rnd "legal_plays g" move c] by auto
  then have "e \<noteq> None \<and> g' = g"
    using assms by (auto simp: play_def split: sum.splits)
  then show "e \<noteq> None" and "g' = g" and "winner g' = Some p" using w by simp_all
next
  assume a: "winner g = None \<and> winner g' \<noteq> None"
  have e: "e = None"
  proof (cases e)
    case (Some err)
    with assms play_rejected have "g' = g" by blast
    with a show ?thesis by auto
  qed simp
  show "e = None" by (rule e)
  from assms e have "play rnd g move = (None, g')" by simp
  then show "winner g' = Some (current_player g)"
    using a by (elim play_accepted) (auto simp: Let_def winner_def next_player_def split: if_splits)
next
  assume "e \<noteq> None"
  then obtain err where "e = Some err" by auto
  with assms play_rejected have "g' = g" by blast
  then show "winner g' = winner g" by simp
next
  assume "e = None"
  with assms have pl: "play rnd g move = (None, g')" by simp
  then obtain c where sel: "select_move rnd (legal_plays g) move = Inr c"
    and c: "c \<in> set (legal_plays g)"
    and g': "g' = (let x' = placed g c;
                   h = (heap g)[state g := x'];
                   g1 = g\<lparr>heap := h @ [x'], last_play := Some c,
                          history := (if save_history g then history g @ [length h] else [length h])\<rparr>
               in if pattern_found x' (row_number g c) c (p_value (current_player g))
                  then g1\<lparr>winner' := Some (current_player g)\<rparr>
                  else next_player g1)"
    by (rule play_accepted)
  have wn: "winner' g = None" by (rule legal_playsD(1)[OF c])
  have b: "board g' = placed g c" if "state g < length (heap g)"
    using that by (simp add: g' Let_def board_def next_player_def nth_append)
  have w': "winner g' =
         (if pattern_found (placed g c) (row_number g c) c (p_value (current_player g))
          then Some (current_player g) else None)"
    by (simp add: g' Let_def winner_def next_player_def wn)
  show "\<exists>c. select_move rnd (legal_plays g) move = Inr c \<and> winner g = None \<and>
                 (state g < length (heap g) \<longrightarrow> board g' = placed g c) \<and>
                 winner g' =
                   (if pattern_found (placed g c) (row_number g c) c (p_value (current_player g))
                    then Some (current_player g) else None)"
    using sel wn b w' by (auto simp: winner_def)
qed

text \<open>
  The first move of a game finds no pattern and leaves no winner; the seventh completes four
  A pieces in column 3, the pattern is found and A wins; a further play of column 1 raises
  and keeps A as winner.
\<close>

theorem winner_set_once_witness:
  "winner (init_game (6, 7) True) = None \<and>
   fst (play 0 (init_game (6, 7) True) (Some 3)) = None \<and>
   \<not> pattern_found (placed (init_game (6, 7) True) 3) (row_number (init_game (6, 7) True) 3) 3 1 \<and>
   winner (snd (play 0 (init_game (6, 7) True) (Some 3))) = None \<and>
   fst (play 0 (play_seq (init_game (6, 7) True) [3, 0, 3, 0, 3, 0]) (Some 3)) = None \<and>
   pattern_found (placed (play_seq (init_game (6, 7) True) [3, 0, 3, 0, 3, 0]) 3)
     (row_number (play_seq (init_game (6, 7) True) [3, 0, 3, 0, 3, 0]) 3) 3 1 \<and>
   winner (snd (play 0 (play_seq (init_game (6, 7) True) [3, 0, 3, 0, 3, 0]) (Some 3))) = Some playerA \<and>
   winner (play_seq (init_game (6, 7) True) [3, 0, 3, 0, 3, 0, 3]) = Some playerA \<and>
   fst (play 0 (play_seq (init_game (6, 7) True) [3, 0, 3, 0, 3, 0, 3]) (Some 1)) \<noteq> None \<and>
   winner (snd (play 0 (play_seq (init_game (6, 7) True) [3, 0, 3, 0, 3, 0, 3]) (Some 1))) = Some playerA"
proof -
  let ?g0 = "init_game (6, 7) True"
  let ?g6 = "play_seq (init_game (6, 7) True) [3, 0, 3, 0, 3, 0]"
  let ?g7 = "play_seq (init_game (6, 7) True) [3, 0, 3, 0, 3, 0, 3]"
  have f0: "fst (play 0 ?g0 (Some 3)) = None" by code_simp
  have s0: "select_move 0 (legal_plays ?g0) (Some 3) = Inr 3" by code_simp
  have n0: "\<not> pattern_found (placed ?g0 3) (row_number ?g0 3) 3 1" by code_simp
  have c0: "p_value (current_player ?g0) = 1" by code_simp
  have f6: "fst (play 0 ?g6 (Some 3)) = None" by code_simp
  have s6: "select_move 0 (legal_plays ?g6) (Some 3) = Inr 3" by code_simp
  have p6: "pattern_found (placed ?g6 3) (row_number ?g6 3) 3 1" by code_simp
  have c6: "current_player ?g6 = playerA" by code_simp
  have w7: "winner ?g7 = Some playerA" by code_simp
  have q0: "play 0 ?g0 (Some 3) = (None, snd (play 0 ?g0 (Some 3)))"
    using f0 by (simp add: prod_eq_iff)
  have q6: "play 0 ?g6 (Some 3) = (None, snd (play 0 ?g6 (Some 3)))"
    using f6 by (simp add: prod_eq_iff)
  have q7: "play 0 ?g7 (Some 1) = (fst (play 0 ?g7 (Some 1)), snd (play 0 ?g7 (Some 1)))"
    by simp
  note T0 = winner_set_once[OF q0, of "(6, 7)" True]
  note T6 = winner_set_once[OF q6, of "(6, 7)" True]
  note T7 = winner_set_once[OF q7, of "(6, 7)" True]
  from T0 obtain c where "select_move 0 (legal_plays ?g0) (Some 3) = Inr c"
    and w0: "winner (snd (play 0 ?g0 (Some 3))) =
          (if pattern_found (placed ?g0 c) (row_number ?g0 c) c (p_value (current_player ?g0))
           then Some (current_player ?g0) else None)"
    by blast
  with s0 have "c = 3" by simp
  with w0 n0 c0 have t0: "winner (snd (play 0 ?g0 (Some 3))) = None" by simp
  from T6 obtain d where "select_move 0 (legal_plays ?g6) (Some 3) = Inr d"
    and w6: "winner (snd (play 0 ?g6 (Some 3))) =
          (if pattern_found (placed ?g6 d) (row_number ?g6 d) d (p_value (current_player ?g6))
           then Some (current_player ?g6) else None)"
    by blast
  with s6 have "d = 3" by simp
  moreover have "p_value (current_player ?g6) = 1" by (simp add: c6 playerA_def)
  ultimately have t6: "winner (snd (play 0 ?g6 (Some 3))) = Some playerA"
    using w6 p6 c6 by simp
  from T7 w7 have t7: "fst (play 0 ?g7 (Some 1)) \<noteq> None \<and>
      winner (snd (play 0 ?g7 (Some 1))) = Some playerA" by blast
  from T0 have i: "winner ?g0 = None" by blast
  show ?thesis using i f0 n0 t0 f6 p6 t6 w7 t7 by blast
qed

text \<open>
  C9, as stated, fails: \<open>last_play\<close> holds the column alone. The first and the third move of
  this game both go to column 3 and land in rows 5 and 4; the recorded last play is the same
  value, 3, after both.
\<close>

theorem last_play_pair_counterexample:
  "accepted_seq (init_game (6, 7) True) [3, 0, 3] \<and>
   row_number (init_game (6, 7) True) 3 = 5 \<and>
   last_play (play_seq (init_game (6, 7) True) [3]) = Some 3 \<and>
   row_number (play_seq (init_game (6, 7) True) [3, 0]) 3 = 4 \<and>
   last_play (play_seq (init_game (6, 7) True) [3, 0, 3]) = Some 3"
proof -
  have "accepted_seq (init_game (6, 7) True) [3, 0, 3]" by code_simp
  moreover have "row_number (init_game (6, 7) True) 3 = 5" by code_simp
  moreover have "last_play (play_seq (init_game (6, 7) True) [3]) = Some 3" by code_simp
  moreover have "row_number (play_seq (init_game (6, 7) True) [3, 0]) 3 = 4" by code_simp
  moreover have "last_play (play_seq (init_game (6, 7) True) [3, 0, 3]) = Some 3" by code_simp
  ultimately show ?thesis by blast
qed

text \<open>
  C9, amended. After every accepted play in a reachable game, \<open>last_play\<close> is the column of
  the piece just placed; the row it landed in is not recorded.
\<close>

theorem last_play_is_column:
  assumes "reached bs sh n g" and "play rnd g move = (None, g')"
  shows "\<exists>c. select_move rnd (legal_plays g) move = Inr c \<and> last_play g' = Some c \<and>
             0 \<le> row_number g c \<and>
             board g' = np_set (board g) (nat (row_number g c)) c (p_value (current_player g))"
proof -
  note inv = reached_inv[OF assms(1)]
  from inv assms(2) obtain c a where "select_move rnd (legal_plays g) move = Inr c"
    and "row_number g c = int a" and "last_play g' = Some c"
    and "board g' = np_set (board g) a c (p_value (current_player g))"
    by (rule play_accepted_inv)
  then show ?thesis by auto
qed

text \<open>
  The first move of a game, into column 3.
\<close>

theorem last_play_is_column_witness:
  "reached (6, 7) True 0 (init_game (6, 7) True) \<and>
   play 0 (init_game (6, 7) True) (Some 3) =
     (None, snd (play 0 (init_game (6, 7) True) (Some 3))) \<and>
   (\<exists>c. select_move 0 (legal_plays (init_game (6, 7) True)) (Some 3) = Inr c \<and>
        last_play (snd (play 0 (init_game (6, 7) True) (Some 3))) = Some c \<and>
        0 \<le> row_number (init_game (6, 7) True) c \<and>
        board (snd (play 0 (init_game (6, 7) True) (Some 3))) =
          np_set (board (init_game (6, 7) True)) (nat (row_number (init_game (6, 7) True) c)) c
            (p_value (current_player (init_game (6, 7) True))))"
proof -
  have r: "reached (6, 7) True 0 (init_game (6, 7) True)" by (rule reached.start)
  have f: "fst (play 0 (init_game (6, 7) True) (Some 3)) = None" by code_simp
  have p: "play 0 (init_game (6, 7) True) (Some 3) =
             (None, snd (play 0 (init_game (6, 7) True) (Some 3)))"
    using f by (simp add: prod_eq_iff)
  show ?thesis
    using r p last_play_is_column[OF r p] by blast
qed

text \<open>
  C10. A new game has current player A, with value 1 and display O, and second registered
  player B, with value 2 and display X. The first accepted move of a game writes the value 1
  into one cell of the empty grid.
\<close>

theorem first_player:
  "current_player (init_game bs sh) = \<lparr>p_name = ''A'', p_value = 1, p_display = ''O''\<rparr> \<and>
   players (init_game bs sh) =
     [\<lparr>p_name = ''A'', p_value = 1, p_display = ''O''\<rparr>,
      \<lparr>p_name = ''B'', p_value = 2, p_display = ''X''\<rparr>] \<and>
   (\<forall>g rnd move g'. reached bs sh 0 g \<and> play rnd g move = (None, g') \<longrightarrow>
      (\<exists>i c. i < fst bs \<and> c < snd bs \<and> board g = np_zeros bs \<and>
             board g' = np_set (np_zeros bs) i c 1 \<and> board g' ! i ! c = 1))"
proof (intro conjI allI impI)
  show "current_player (init_game bs sh) = \<lparr>p_name = ''A'', p_value = 1, p_display = ''O''\<rparr>"
    by (simp add: init_game_def next_player_def playerA_def)
  show "players (init_game bs sh) =
     [\<lparr>p_name = ''A'', p_value = 1, p_display = ''O''\<rparr>,
      \<lparr>p_name = ''B'', p_value = 2, p_display = ''X''\<rparr>]"
    by (simp add: init_game_def next_player_def playerA_def playerB_def)
next
  fix g rnd move g'
  assume a: "reached bs sh 0 g \<and> play rnd g move = (None, g')"
  then have g: "g = init_game bs sh" using reached_0 by blast
  from a have inv: "game_inv bs g" using reached_inv by blast
  from inv a obtain c i where c: "c < snd bs" and i: "i < fst bs"
    and b': "board g' = np_set (board g) i c (p_value (current_player g))"
    by (elim conjE play_accepted_inv)
  have v: "p_value (current_player g) = 1"
    by (simp add: g current_player_init playerA_def)
  have r: "rect bs (board g)" by (rule game_invD(3)[OF inv])
  have li: "i < length (board g)" using r i by (simp add: rect_def)
  have lc: "c < length (board g ! i)" using rect_row_length[OF r i] c by simp
  have "board g' ! i ! c = 1"
    unfolding b' v using np_set_nth[OF li lc, of 1 i c] by simp
  then show "\<exists>i c. i < fst bs \<and> c < snd bs \<and> board g = np_zeros bs \<and>
             board g' = np_set (np_zeros bs) i c 1 \<and> board g' ! i ! c = 1"
    using c i b' v board_init[of bs sh] g by auto
qed

text \<open>
  The first move of a game on the 6 x 7 board, into column 3.
\<close>

theorem first_player_witness:
  "reached (6, 7) True 0 (init_game (6, 7) True) \<and>
   play 0 (init_game (6, 7) True) (Some 3) =
     (None, snd (play 0 (init_game (6, 7) True) (Some 3))) \<and>
   (\<exists>i c. i < fst (6::nat, 7::nat) \<and> c < snd (6::nat, 7::nat) \<and>
          board (snd (play 0 (init_game (6, 7) True) (Some 3))) = np_set (np_zeros (6, 7)) i c 1 \<and>
          board (snd (play 0 (init_game (6, 7) True) (Some 3))) ! i ! c = 1)"
proof -
  have r: "reached (6, 7) True 0 (init_game (6, 7) True)" by (rule reached.start)
  have f: "fst (play 0 (init_game (6, 7) True) (Some 3)) = None" by code_simp
  have p: "play 0 (init_game (6, 7) True) (Some 3) =
             (None, snd (play 0 (init_game (6, 7) True) (Some 3)))"
    using f by (simp add: prod_eq_iff)
  show ?thesis
    using r p first_player[of "(6, 7)" True] by blast
qed

end
